theory Spec2Isabelle
  imports Main "HOL-Library.Sublist"
begin

section \<open>JavaScript values and the store\<close>

text \<open>
  The rows of a journey log are JavaScript objects, and the correction handler of
  \<^verbatim>\<open>App\<close> builds new arrays and new objects from them. Objects and arrays live in a
  store of cells; a value is a primitive or a reference to a cell. Numbers are kept as
  integers plus \<open>NaN\<close>: the handler only ever asks whether a value is truthy.
\<close>

type_synonym addr = nat

datatype val = JUndefined | JNull | JBool bool | JNum int | JNaN | JStr string | JRef addr

datatype cell = Obj "string \<rightharpoonup> val" | Arr "val list"

type_synonym heap = "cell list"

definition lookup :: "heap \<Rightarrow> addr \<Rightarrow> cell option" where
  "lookup h a = (if a < length h then Some (h ! a) else None)"

text \<open>An object or array literal allocates a new cell behind every existing one.\<close>

definition alloc :: "cell \<Rightarrow> heap \<Rightarrow> addr \<times> heap" where
  "alloc c h = (length h, h @ [c])"

text \<open>\<^verbatim>\<open>Boolean(v)\<close>, the predicate of the last \<^verbatim>\<open>filter\<close>.\<close>

fun truthy :: "val \<Rightarrow> bool" where
  "truthy JUndefined = False"
| "truthy JNull = False"
| "truthy (JBool b) = b"
| "truthy (JNum n) = (n \<noteq> 0)"
| "truthy JNaN = False"
| "truthy (JStr s) = (s \<noteq> [])"
| "truthy (JRef a) = True"

text \<open>Decimal property names of array elements and string characters.\<close>

fun dec :: "nat \<Rightarrow> string" where
  "dec n = (if n < 10 then [char_of (48 + n)] else dec (n div 10) @ [char_of (48 + n mod 10)])"

declare dec.simps [simp del]

definition index_props :: "val list \<Rightarrow> string \<rightharpoonup> val" where
  "index_props xs = map_of (zip (map dec [0..<length xs]) xs)"

definition chars :: "string \<Rightarrow> val list" where
  "chars s = map (\<lambda>c. JStr [c]) s"

text \<open>
  The own enumerable properties that an object spread \<^verbatim>\<open>{...v}\<close> copies: the fields of
  an object, the elements of an array, the characters of a string, nothing for the other
  primitives.
\<close>

definition own_props :: "heap \<Rightarrow> val \<Rightarrow> string \<rightharpoonup> val" where
  "own_props h v =
     (case v of
        JRef a \<Rightarrow>
          (case lookup h a of
             Some (Obj m) \<Rightarrow> m
           | Some (Arr xs) \<Rightarrow> index_props xs
           | None \<Rightarrow> Map.empty)
      | JStr s \<Rightarrow> index_props (chars s)
      | _ \<Rightarrow> Map.empty)"

text \<open>
  The elements that an array spread \<^verbatim>\<open>[...v]\<close> copies. Arrays and strings are iterable;
  spreading \<^verbatim>\<open>null\<close>, \<^verbatim>\<open>undefined\<close>, a number, a boolean or a plain object throws a
  \<^verbatim>\<open>TypeError\<close>.
\<close>

datatype error = TypeError

definition iterate :: "heap \<Rightarrow> val \<Rightarrow> val list option" where
  "iterate h v =
     (case v of
        JRef a \<Rightarrow> (case lookup h a of Some (Arr xs) \<Rightarrow> Some xs | _ \<Rightarrow> None)
      | JStr s \<Rightarrow> Some (chars s)
      | _ \<Rightarrow> None)"

section \<open>Correction directives\<close>

text \<open>An entry of the \<^verbatim>\<open>corrections\<close> array: \<^verbatim>\<open>{ tripIndex, action, newData }\<close>.\<close>

record directive =
  tripIndex :: int
  action :: string
  newData :: val

text \<open>
  The \<^verbatim>\<open>forEach\<close> over the corrections fills a \<^verbatim>\<open>Set\<close> of indices to remove and a
  \<^verbatim>\<open>Map\<close> from index to patch; a later \<^verbatim>\<open>set\<close> for the same key replaces the earlier one,
  and an action that is neither \<^verbatim>\<open>'skip'\<close> nor \<^verbatim>\<open>'correct'\<close> is passed over.
\<close>

definition note_correction ::
  "directive \<Rightarrow> int set \<times> (int \<rightharpoonup> val) \<Rightarrow> int set \<times> (int \<rightharpoonup> val)" where
  "note_correction c = (\<lambda>(indicesToRemove, updates).
     if action c = ''skip'' then (insert (tripIndex c) indicesToRemove, updates)
     else if action c = ''correct'' then (indicesToRemove, updates(tripIndex c \<mapsto> newData c))
     else (indicesToRemove, updates))"

definition partition_corrections :: "directive list \<Rightarrow> int set \<times> (int \<rightharpoonup> val)" where
  "partition_corrections corrections = fold note_correction corrections ({}, Map.empty)"

section \<open>The array methods\<close>

text \<open>
  \<^verbatim>\<open>Array.prototype.filter\<close> and \<^verbatim>\<open>Array.prototype.map\<close> hand the callback the element
  and its index in the array they are called on. The first argument of the models is the
  index of the head of the remaining list. The callback of \<^verbatim>\<open>map\<close> may allocate, so it
  threads the store.
\<close>

fun array_filter :: "('a \<Rightarrow> nat \<Rightarrow> bool) \<Rightarrow> nat \<Rightarrow> 'a list \<Rightarrow> 'a list" where
  "array_filter p i [] = []"
| "array_filter p i (x # xs) =
     (if p x i then x # array_filter p (Suc i) xs else array_filter p (Suc i) xs)"

fun array_map ::
  "('a \<Rightarrow> nat \<Rightarrow> heap \<Rightarrow> 'b \<times> heap) \<Rightarrow> nat \<Rightarrow> 'a list \<Rightarrow> heap \<Rightarrow> 'b list \<times> heap" where
  "array_map f i [] h = ([], h)"
| "array_map f i (x # xs) h =
     (case f x i h of (y, h1) \<Rightarrow>
        (case array_map f (Suc i) xs h1 of (ys, h2) \<Rightarrow> (y # ys, h2)))"

section \<open>The correction resolver\<close>

text \<open>
  The callback of the \<^verbatim>\<open>map\<close> in \<^verbatim>\<open>handleAnomalyCorrection\<close>:
  \<^verbatim>\<open>
  if (indicesToRemove.has(index)) return null;
  if (updates.has(index)) return { ...item, ...updates.get(index) };
  return item;
  \<close>
  The merged row is a new object: the properties of the item, overridden and extended by
  those of the patch.
\<close>

definition correct_row ::
  "int set \<Rightarrow> (int \<rightharpoonup> val) \<Rightarrow> val \<Rightarrow> nat \<Rightarrow> heap \<Rightarrow> val \<times> heap" where
  "correct_row indicesToRemove updates item index h =
     (if int index \<in> indicesToRemove then (JNull, h)
      else case updates (int index) of
             Some patch \<Rightarrow>
               (case alloc (Obj (own_props h item ++ own_props h patch)) h of
                  (a, h') \<Rightarrow> (JRef a, h'))
           | None \<Rightarrow> (item, h))"

text \<open>
  The body of \<^verbatim>\<open>handleAnomalyCorrection\<close> up to \<^verbatim>\<open>finalData\<close>, with the pending dataset
  as an argument:
  \<^verbatim>\<open>
  const cleanedData = [...pendingJourneyData];
  ...
  const finalData = cleanedData
    .filter((_item, index) => !indicesToRemove.has(index))
    .map((item, index) => { ... })
    .filter(Boolean);
  \<close>
  The \<^verbatim>\<open>map\<close> runs on the array the first \<^verbatim>\<open>filter\<close> returned, so its \<^verbatim>\<open>index\<close> counts
  positions of that array. Each of the four arrays is a new cell; \<^verbatim>\<open>cleanedData\<close> holds
  the rows that the spread read. A cell gets the next free address when it is complete,
  so the array of the \<^verbatim>\<open>map\<close> lies behind the objects its callback made; the order of
  the addresses is nothing a program can see.
\<close>

definition applyCorrections :: "heap \<Rightarrow> val \<Rightarrow> directive list \<Rightarrow> error + val \<times> heap" where
  "applyCorrections h pending corrections =
     (case iterate h pending of
        None \<Rightarrow> Inl TypeError
      | Some rows \<Rightarrow>
          (case alloc (Arr rows) h of (cleanedData, h1) \<Rightarrow>
          (case partition_corrections corrections of (indicesToRemove, updates) \<Rightarrow>
          (case array_filter (\<lambda>item index. int index \<notin> indicesToRemove) 0 rows of kept \<Rightarrow>
          (case alloc (Arr kept) h1 of (filtered, h2) \<Rightarrow>
          (case array_map (correct_row indicesToRemove updates) 0 kept h2 of (mapped, h3) \<Rightarrow>
          (case alloc (Arr mapped) h3 of (mappedData, h4) \<Rightarrow>
          (case alloc (Arr (filter truthy mapped)) h4 of (finalData, h5) \<Rightarrow>
             Inr (JRef finalData, h5)))))))))"

text \<open>The rows of the array a call returns, read from the store it returns.\<close>

definition corrected_rows :: "heap \<Rightarrow> val \<Rightarrow> directive list \<Rightarrow> val list option" where
  "corrected_rows h pending corrections =
     (case applyCorrections h pending corrections of
        Inl e \<Rightarrow> None
      | Inr (finalData, h') \<Rightarrow> iterate h' finalData)"

section \<open>The session state\<close>

text \<open>
  The state variables of \<^verbatim>\<open>App\<close> that the anomaly workflow reads and writes. The anomaly
  list is kept by its entries.
\<close>

record app_state =
  journeyData :: val
  anomalies :: "val list"
  pendingJourneyData :: val
  anomalyModalOpened :: bool

datatype outcome = Returned | Threw error

text \<open>
  \<^verbatim>\<open>closeAnomalyModal\<close>, the \<^verbatim>\<open>close\<close> handler that \<^verbatim>\<open>useDisclosure(false)\<close> returns and
  that the modal gets as \<^verbatim>\<open>onClose\<close>: it sets the flag of the modal to false.
\<close>

definition closeAnomalyModal :: "app_state \<Rightarrow> app_state" where
  "closeAnomalyModal st = st\<lparr>anomalyModalOpened := False\<rparr>"

text \<open>
  \<^verbatim>\<open>handleAnomalyCorrection\<close>: the spread of the pending dataset comes first, so a
  \<^verbatim>\<open>TypeError\<close> there leaves before any setter has run. Otherwise
  \<^verbatim>\<open>
  setJourneyData(finalData);
  setPendingJourneyData(null);
  setAnomalies([]);
  closeAnomalyModal();
  \<close>
\<close>

definition handleAnomalyCorrection ::
  "app_state \<Rightarrow> heap \<Rightarrow> directive list \<Rightarrow> outcome \<times> app_state \<times> heap" where
  "handleAnomalyCorrection st h corrections =
     (case applyCorrections h (pendingJourneyData st) corrections of
        Inl e \<Rightarrow> (Threw e, st, h)
      | Inr (finalData, h') \<Rightarrow>
          (Returned,
           closeAnomalyModal
             (st\<lparr>journeyData := finalData, pendingJourneyData := JNull, anomalies := []\<rparr>),
           h'))"

text \<open>
  The three states of the session, read off the state variables: a pending dataset
  means a correction is awaited, otherwise accepted data means a clean load.
\<close>

datatype phase = EMPTY | CLEAN_LOADED | AWAITING_CORRECTION

definition session_phase :: "app_state \<Rightarrow> phase" where
  "session_phase st =
     (if pendingJourneyData st \<noteq> JNull then AWAITING_CORRECTION
      else if journeyData st \<noteq> JNull then CLEAN_LOADED
      else EMPTY)"

section \<open>Provenance of result rows\<close>

text \<open>The patches that the \<^verbatim>\<open>'correct'\<close> directives of a list carry.\<close>

definition patches :: "directive list \<Rightarrow> val set" where
  "patches cs = newData ` {c \<in> set cs. action c = ''correct''}"

text \<open>
  \<open>patched_copy h h' ps out src\<close>: in the store \<open>h'\<close> the value \<open>out\<close> is an object
  that did not exist in \<open>h\<close> and holds the properties of \<open>src\<close> overridden by those of
  one of the patches \<open>ps\<close>. The properties are those that \<open>src\<close> and the patch had when
  the object was made, that is in the store below its address.
\<close>

definition patched_copy :: "heap \<Rightarrow> heap \<Rightarrow> val set \<Rightarrow> val \<Rightarrow> val \<Rightarrow> bool" where
  "patched_copy h h' ps out src \<longleftrightarrow>
     (\<exists>a patch. out = JRef a \<and> length h \<le> a \<and> patch \<in> ps \<and>
        lookup h' a = Some (Obj (own_props (take a h') src ++ own_props (take a h') patch)))"

text \<open>A result row stems from a pending row: it is that row, or a patched copy of it.\<close>

definition retained_as :: "heap \<Rightarrow> heap \<Rightarrow> directive list \<Rightarrow> val \<Rightarrow> val \<Rightarrow> bool" where
  "retained_as h h' cs out src \<longleftrightarrow> out = src \<or> patched_copy h h' (patches cs) out src"

text \<open>Two index set and patch map pairs that answer alike for the indices in \<open>K\<close>.\<close>

definition same_within ::
  "int set \<Rightarrow> int set \<times> (int \<rightharpoonup> val) \<Rightarrow> int set \<times> (int \<rightharpoonup> val) \<Rightarrow> bool" where
  "same_within K P Q \<longleftrightarrow> (\<forall>k\<in>K. (k \<in> fst P \<longleftrightarrow> k \<in> fst Q) \<and> snd P k = snd Q k)"

text \<open>The store a call leaves behind; the store it was given when it throws.\<close>

definition corrected_store :: "heap \<Rightarrow> val \<Rightarrow> directive list \<Rightarrow> heap" where
  "corrected_store h pending corrections =
     (case applyCorrections h pending corrections of
        Inl e \<Rightarrow> h
      | Inr (finalData, h') \<Rightarrow> h')"

section \<open>Example data\<close>

text \<open>
  A store with four trips at addresses 0 to 3, the pending dataset holding them at
  address 4, a patch \<^verbatim>\<open>{distance: 42}\<close> at address 5 and an anomaly at address 6.
\<close>

definition trip :: "int \<Rightarrow> int \<Rightarrow> int \<Rightarrow> cell" where
  "trip s e d =
     Obj [''odometerStart'' \<mapsto> JNum s, ''odometerEnd'' \<mapsto> JNum e, ''distance'' \<mapsto> JNum d]"

definition demo_store :: heap where
  "demo_store =
     [trip 100 150 50, trip 150 190 40, trip 190 220 30, trip 220 230 10,
      Arr [JRef 0, JRef 1, JRef 2, JRef 3],
      Obj [''distance'' \<mapsto> JNum 42],
      Obj [''tripIndex'' \<mapsto> JNum 2, ''description'' \<mapsto> JStr ''odometer mismatch'']]"

definition skip_at :: "int \<Rightarrow> directive" where
  "skip_at i = \<lparr>tripIndex = i, action = ''skip'', newData = JUndefined\<rparr>"

definition correct_at :: "int \<Rightarrow> val \<Rightarrow> directive" where
  "correct_at i patch = \<lparr>tripIndex = i, action = ''correct'', newData = patch\<rparr>"

text \<open>The state \<^verbatim>\<open>App\<close> starts in, and a state with the demo dataset pending.\<close>

definition initial_state :: app_state where
  "initial_state =
     \<lparr>journeyData = JNull, anomalies = [], pendingJourneyData = JNull,
      anomalyModalOpened = False\<rparr>"

definition awaiting_state :: app_state where
  "awaiting_state =
     \<lparr>journeyData = JNull, anomalies = [JRef 6], pendingJourneyData = JRef 4,
      anomalyModalOpened = True\<rparr>"

section \<open>Lemmas about the store and the array methods\<close>

lemma lookup_append_old: "a < length h \<Longrightarrow> lookup (h @ ext) a = lookup h a"
  by (simp add: lookup_def nth_append)

text \<open>
  For a value that refers into the store \<open>h\<close>, or is a primitive, the properties read
  below a later address are the ones it has in \<open>h\<close>.
\<close>

lemma own_props_below:
  assumes "length h \<le> a" and "\<And>b. v = JRef b \<Longrightarrow> b < length h"
  shows "own_props (take a (h @ ext)) v = own_props h v"
proof (cases v)
  case (JRef b)
  with assms(2) have "b < length h" by simp
  with assms(1) have "lookup (take a (h @ ext)) b = lookup h b"
    by (simp add: lookup_def nth_append)
  with JRef show ?thesis by (simp add: own_props_def)
qed (simp_all add: own_props_def)

lemma array_filter_cong:
  "(\<And>x i. i0 \<le> i \<Longrightarrow> i < i0 + length xs \<Longrightarrow> p x i = q x i) \<Longrightarrow>
   array_filter p i0 xs = array_filter q i0 xs"
proof (induction xs arbitrary: i0)
  case Nil
  show ?case by simp
next
  case (Cons x xs)
  have "p x i0 = q x i0" using Cons.prems [of i0 x] by simp
  moreover have "array_filter p (Suc i0) xs = array_filter q (Suc i0) xs"
    by (rule Cons.IH) (use Cons.prems in simp)
  ultimately show ?case by simp
qed

lemma length_array_filter: "length (array_filter p i xs) \<le> length xs"
  by (induction xs arbitrary: i) (auto simp: le_SucI)

lemma subseq_array_filter: "subseq (array_filter p i xs) xs"
  by (induction xs arbitrary: i) auto

lemma array_filter_append:
  "array_filter p i (xs @ ys) = array_filter p i xs @ array_filter p (i + length xs) ys"
  by (induction xs arbitrary: i) auto

lemma array_filter_all: "(\<And>x i. p x i) \<Longrightarrow> array_filter p i xs = xs"
  by (induction xs arbitrary: i) auto

lemma array_map_cong:
  "(\<And>x i h. i0 \<le> i \<Longrightarrow> i < i0 + length xs \<Longrightarrow> f x i h = g x i h) \<Longrightarrow>
   array_map f i0 xs h = array_map g i0 xs h"
proof (induction xs arbitrary: i0 h)
  case Nil
  show ?case by simp
next
  case (Cons x xs)
  have hd: "f x i0 h = g x i0 h" using Cons.prems [of i0 x h] by simp
  have tl: "array_map f (Suc i0) xs h1 = array_map g (Suc i0) xs h1" for h1
    by (rule Cons.IH) (use Cons.prems in simp)
  show ?case by (simp add: hd tl)
qed

lemma patched_copy_mono:
  assumes "patched_copy h1 h2 ps out src" and "length h \<le> length h1"
  shows "patched_copy h (h2 @ ext) ps out src"
proof -
  from assms(1) obtain a patch where a: "out = JRef a" "length h1 \<le> a" "patch \<in> ps"
    "lookup h2 a = Some (Obj (own_props (take a h2) src ++ own_props (take a h2) patch))"
    unfolding patched_copy_def by blast
  from a(4) have lt: "a < length h2" by (simp add: lookup_def split: if_splits)
  then have "lookup (h2 @ ext) a = lookup h2 a" "take a (h2 @ ext) = take a h2"
    by (simp_all add: lookup_append_old)
  with a assms(2) show ?thesis unfolding patched_copy_def by auto
qed

lemma array_map_correct_row:
  "array_map (correct_row rm up) i kept h = (ys, h') \<Longrightarrow>
   (\<exists>ext. h' = h @ ext) \<and>
   list_all2 (\<lambda>y x. y = JNull \<or> y = x \<or> patched_copy h h' (ran up) y x) ys kept"
proof (induction kept arbitrary: i h ys h')
  case Nil
  then show ?case by simp
next
  case (Cons x xs)
  obtain y h1 where hd: "correct_row rm up x i h = (y, h1)" by (cases "correct_row rm up x i h")
  obtain ys' h2 where tl: "array_map (correct_row rm up) (Suc i) xs h1 = (ys', h2)"
    by (cases "array_map (correct_row rm up) (Suc i) xs h1")
  from Cons.prems hd tl have res: "ys = y # ys'" "h' = h2" by simp_all
  from Cons.IH [OF tl] obtain ext where ext: "h2 = h1 @ ext"
    and rest: "list_all2 (\<lambda>y x. y = JNull \<or> y = x \<or> patched_copy h1 h2 (ran up) y x) ys' xs"
    by blast
  have step: "(h1 = h \<and> (y = JNull \<or> y = x)) \<or>
      (\<exists>patch. patch \<in> ran up \<and> y = JRef (length h) \<and>
         h1 = h @ [Obj (own_props h x ++ own_props h patch)])"
    using hd by (auto simp: correct_row_def alloc_def ran_def split: if_splits option.splits)
  then obtain ext1 where ext1: "h1 = h @ ext1" by auto
  have len: "length h \<le> length h1" using ext1 by simp
  have head: "y = JNull \<or> y = x \<or> patched_copy h h2 (ran up) y x"
  proof -
    { assume "y \<noteq> JNull" "y \<noteq> x"
      with step obtain patch where p: "patch \<in> ran up" "y = JRef (length h)"
        "h1 = h @ [Obj (own_props h x ++ own_props h patch)]" by blast
      have "lookup h2 (length h) = Some (Obj (own_props h x ++ own_props h patch))"
        using p(3) ext by (simp add: lookup_def nth_append)
      moreover have "take (length h) h2 = h" using p(3) ext by simp
      ultimately have "patched_copy h h2 (ran up) y x"
        unfolding patched_copy_def using p(1,2) by auto }
    then show ?thesis by blast
  qed
  have rest': "list_all2 (\<lambda>y x. y = JNull \<or> y = x \<or> patched_copy h h2 (ran up) y x) ys' xs"
    using rest patched_copy_mono [where ext = "[]" and h = h, OF _ len]
    by (auto elim!: list_all2_mono)
  show ?case using res ext ext1 head rest' by auto
qed

lemma ran_upd_subset: "v \<in> ran (m(k \<mapsto> w)) \<Longrightarrow> v = w \<or> v \<in> ran m"
  by (auto simp: ran_def split: if_splits)

lemma ran_fold_note:
  "v \<in> ran (snd (fold note_correction cs P)) \<Longrightarrow> v \<in> ran (snd P) \<or> v \<in> patches cs"
proof (induction cs arbitrary: P)
  case Nil
  then show ?case by simp
next
  case (Cons c cs)
  obtain rm up where P: "P = (rm, up)" by (cases P)
  from Cons.prems have "v \<in> ran (snd (fold note_correction cs (note_correction c P)))" by simp
  from Cons.IH [OF this] have "v \<in> ran (snd (note_correction c P)) \<or> v \<in> patches cs" .
  then show ?case
    using P by (auto simp: note_correction_def patches_def dest: ran_upd_subset split: if_splits)
qed

lemma ran_partition: "partition_corrections cs = (rm, up) \<Longrightarrow> ran up \<subseteq> patches cs"
  using ran_fold_note [of _ cs "({}, Map.empty)"] by (auto simp: partition_corrections_def)

lemma patched_copy_patches:
  "patched_copy h h' ps out src \<Longrightarrow> ps \<subseteq> qs \<Longrightarrow> patched_copy h h' qs out src"
  unfolding patched_copy_def by blast

lemma filter_truthy_emb:
  "list_all2 (\<lambda>y x. y = JNull \<or> R y x) ys kept \<Longrightarrow> list_emb R (filter truthy ys) kept"
  by (induction rule: list_all2_induct) auto

lemma list_emb_subseq:
  "subseq kept xs \<Longrightarrow> list_emb R zs kept \<Longrightarrow> list_emb R zs xs"
proof (induction kept xs arbitrary: zs rule: list_emb.induct)
  case (list_emb_Nil ys)
  then have "zs = []" by (cases rule: list_emb.cases) auto
  then show ?case by simp
next
  case (list_emb_Cons xs ys y)
  then show ?case by auto
next
  case (list_emb_Cons2 x y xs ys)
  from list_emb_Cons2.prems show ?case
    by (cases rule: list_emb.cases) (use list_emb_Cons2 in auto)
qed

lemma iterate_alloc_last: "iterate (h @ [c, Arr ys]) (JRef (Suc (length h))) = Some ys"
  by (simp add: iterate_def lookup_def nth_append)

lemma applyCorrections_unfold:
  assumes "iterate h p = Some xs" and "partition_corrections cs = (rm, up)"
    and "kept = array_filter (\<lambda>item index. int index \<notin> rm) 0 xs"
    and "array_map (correct_row rm up) 0 kept (h @ [Arr xs, Arr kept]) = (mapped, h3)"
  shows "applyCorrections h p cs =
     Inr (JRef (Suc (length h3)), h3 @ [Arr mapped, Arr (filter truthy mapped)])"
  using assms by (simp add: applyCorrections_def alloc_def)

lemma applyCorrections_provenance:
  assumes "iterate h p = Some xs" and "partition_corrections cs = (rm, up)"
  shows "\<exists>a ext ys. applyCorrections h p cs = Inr (JRef a, h @ ext) \<and> length h \<le> a \<and>
     iterate (h @ ext) (JRef a) = Some ys \<and>
     list_emb (retained_as h (h @ ext) cs) ys (array_filter (\<lambda>item index. int index \<notin> rm) 0 xs) \<and>
     (\<forall>y\<in>set ys. truthy y)"
proof -
  define kept where "kept = array_filter (\<lambda>item index. int index \<notin> rm) 0 xs"
  define h2 where "h2 = h @ [Arr xs, Arr kept]"
  obtain mapped h3 where m: "array_map (correct_row rm up) 0 kept h2 = (mapped, h3)"
    by (cases "array_map (correct_row rm up) 0 kept h2")
  define h5 where "h5 = h3 @ [Arr mapped, Arr (filter truthy mapped)]"
  from array_map_correct_row [OF m] obtain ext3 where ext3: "h3 = h2 @ ext3"
    and all2: "list_all2 (\<lambda>y x. y = JNull \<or> y = x \<or> patched_copy h2 h3 (ran up) y x) mapped kept"
    by blast
  have res: "applyCorrections h p cs = Inr (JRef (Suc (length h3)), h5)"
    unfolding h5_def by (rule applyCorrections_unfold [OF assms kept_def]) (use m h2_def in simp)
  have h5: "h5 = h @ ([Arr xs, Arr kept] @ ext3 @ [Arr mapped, Arr (filter truthy mapped)])"
    by (simp add: h5_def ext3 h2_def)
  have it: "iterate h5 (JRef (Suc (length h3))) = Some (filter truthy mapped)"
    unfolding h5_def by (rule iterate_alloc_last)
  have "list_all2 (\<lambda>y x. y = JNull \<or> retained_as h h5 cs y x) mapped kept"
  proof (rule list_all2_mono [OF all2])
    fix y x assume "y = JNull \<or> y = x \<or> patched_copy h2 h3 (ran up) y x"
    moreover have "patched_copy h h5 (patches cs) y x" if "patched_copy h2 h3 (ran up) y x"
      unfolding h5_def
      by (rule patched_copy_mono [OF patched_copy_patches [OF that ran_partition [OF assms(2)]]])
         (simp add: h2_def)
    ultimately show "y = JNull \<or> retained_as h h5 cs y x"
      by (auto simp: retained_as_def)
  qed
  then have emb: "list_emb (retained_as h h5 cs) (filter truthy mapped) kept"
    by (rule filter_truthy_emb)
  have "length h \<le> Suc (length h3)" by (simp add: ext3 h2_def)
  with res it emb show ?thesis unfolding h5 kept_def by (intro exI [of _ "Suc (length h3)"] exI) auto
qed

lemma same_within_note:
  "same_within K P Q \<Longrightarrow> same_within K (note_correction c P) (note_correction c Q)"
  by (cases P; cases Q) (auto simp: same_within_def note_correction_def)

lemma same_within_drop:
  "tripIndex c \<notin> K \<Longrightarrow> same_within K P Q \<Longrightarrow> same_within K (note_correction c P) Q"
  by (cases P; cases Q) (auto simp: same_within_def note_correction_def)

lemma same_within_fold_filter:
  "(\<And>c. c \<in> set cs \<Longrightarrow> \<not> keep c \<Longrightarrow> tripIndex c \<notin> K) \<Longrightarrow> same_within K P Q \<Longrightarrow>
   same_within K (fold note_correction cs P) (fold note_correction (filter keep cs) Q)"
proof (induction cs arbitrary: P Q)
  case Nil
  then show ?case by simp
next
  case (Cons c cs)
  show ?case
  proof (cases "keep c")
    case True
    have "same_within K (note_correction c P) (note_correction c Q)"
      using Cons.prems(2) by (rule same_within_note)
    then have "same_within K (fold note_correction cs (note_correction c P))
        (fold note_correction (filter keep cs) (note_correction c Q))"
      by (rule Cons.IH [rotated]) (use Cons.prems(1) in simp)
    with True show ?thesis by simp
  next
    case False
    then have "tripIndex c \<notin> K" using Cons.prems(1) by simp
    then have "same_within K (note_correction c P) Q"
      using Cons.prems(2) by (rule same_within_drop)
    then have "same_within K (fold note_correction cs (note_correction c P))
        (fold note_correction (filter keep cs) Q)"
      by (rule Cons.IH [rotated]) (use Cons.prems(1) in simp)
    with False show ?thesis by simp
  qed
qed

lemma same_within_refl: "same_within K P P"
  by (simp add: same_within_def)

lemma fst_fold_note:
  "fst (fold note_correction cs P) = fst P \<union> tripIndex ` {c \<in> set cs. action c = ''skip''}"
proof (induction cs arbitrary: P)
  case Nil
  show ?case by simp
next
  case (Cons c cs)
  obtain rm up where P: "P = (rm, up)" by (cases P)
  show ?case unfolding fold_simps Cons.IH
    by (auto simp: P note_correction_def)
qed

lemma applyCorrections_cong:
  assumes it: "iterate h p = Some xs"
    and P: "partition_corrections cs = (rm, up)" and Q: "partition_corrections cs' = (rm', up')"
    and agree: "\<And>k. k < length xs \<Longrightarrow>
       (int k \<in> rm \<longleftrightarrow> int k \<in> rm') \<and> (int k \<notin> rm \<longrightarrow> up (int k) = up' (int k))"
  shows "applyCorrections h p cs = applyCorrections h p cs'"
proof -
  define kept where "kept = array_filter (\<lambda>item index. int index \<notin> rm) 0 xs"
  have kept': "kept = array_filter (\<lambda>item index. int index \<notin> rm') 0 xs"
    unfolding kept_def by (rule array_filter_cong) (use agree in simp)
  have len: "length kept \<le> length xs" unfolding kept_def by (rule length_array_filter)
  have row: "correct_row rm up x k s = correct_row rm' up' x k s" if "k < length kept" for x k s
  proof -
    from that len have "k < length xs" by simp
    from agree [OF this] show ?thesis by (auto simp: correct_row_def)
  qed
  have m: "array_map (correct_row rm up) 0 kept s = array_map (correct_row rm' up') 0 kept s" for s
    by (rule array_map_cong) (use row in simp)
  obtain mapped h3 where r: "array_map (correct_row rm up) 0 kept (h @ [Arr xs, Arr kept]) = (mapped, h3)"
    by (cases "array_map (correct_row rm up) 0 kept (h @ [Arr xs, Arr kept])")
  have "applyCorrections h p cs = Inr (JRef (Suc (length h3)), h3 @ [Arr mapped, Arr (filter truthy mapped)])"
    by (rule applyCorrections_unfold [OF it P kept_def r])
  moreover have "applyCorrections h p cs' = Inr (JRef (Suc (length h3)), h3 @ [Arr mapped, Arr (filter truthy mapped)])"
    by (rule applyCorrections_unfold [OF it Q kept']) (use r m in simp)
  ultimately show ?thesis by simp
qed

lemma applyCorrections_same_within:
  assumes it: "iterate h p = Some xs"
    and sw: "same_within K (partition_corrections cs) (partition_corrections cs')"
    and K: "\<And>k. k < length xs \<Longrightarrow> int k \<in> K \<or>
        (int k \<in> fst (partition_corrections cs) \<and> int k \<in> fst (partition_corrections cs'))"
  shows "applyCorrections h p cs = applyCorrections h p cs'"
proof -
  obtain rm up where P: "partition_corrections cs = (rm, up)" by (cases "partition_corrections cs")
  obtain rm' up' where Q: "partition_corrections cs' = (rm', up')" by (cases "partition_corrections cs'")
  show ?thesis
  proof (rule applyCorrections_cong [OF it P Q])
    fix k assume "k < length xs"
    from K [OF this] sw show "(int k \<in> rm \<longleftrightarrow> int k \<in> rm') \<and> (int k \<notin> rm \<longrightarrow> up (int k) = up' (int k))"
      by (auto simp: same_within_def P Q)
  qed
qed

lemma iterate_append: "iterate h p = Some xs \<Longrightarrow> iterate (h @ ext) p = Some xs"
  by (auto simp: iterate_def lookup_def nth_append split: val.splits if_splits)

lemma array_filter_drops:
  assumes "i < length xs" and "\<not> p (xs ! i) (i0 + i)"
  shows "array_filter p i0 xs =
     array_filter p i0 (take i xs) @ array_filter p (Suc (i0 + i)) (drop (Suc i) xs)"
proof -
  have "xs = take i xs @ (xs ! i # drop (Suc i) xs)"
    using assms(1) by (simp add: id_take_nth_drop)
  then have "array_filter p i0 xs = array_filter p i0 (take i xs @ (xs ! i # drop (Suc i) xs))"
    by simp
  also have "\<dots> = array_filter p i0 (take i xs) @ array_filter p (Suc (i0 + i)) (drop (Suc i) xs)"
    using assms by (simp add: array_filter_append min_def)
  finally show ?thesis .
qed

lemma subseq_array_filter_drops:
  assumes "i < length xs" and "\<not> p (xs ! i) i"
  shows "subseq (array_filter p 0 xs) (take i xs @ drop (Suc i) xs)"
proof -
  have "array_filter p 0 xs = array_filter p 0 (take i xs) @ array_filter p (Suc i) (drop (Suc i) xs)"
    using array_filter_drops [of i xs p 0] assms by simp
  then show ?thesis
    by (simp add: list_emb_append_mono subseq_array_filter)
qed

lemma array_map_no_corrections: "array_map (correct_row {} Map.empty) i xs h = (xs, h)"
  by (induction xs arbitrary: i) (auto simp: correct_row_def)

lemma applyCorrections_Nil:
  "iterate h p = Some xs \<Longrightarrow>
   applyCorrections h p [] =
     Inr (JRef (length h + 3), h @ [Arr xs, Arr xs, Arr xs, Arr (filter truthy xs)])"
  by (simp add: applyCorrections_def alloc_def partition_corrections_def array_filter_all
      array_map_no_corrections)

section \<open>The claims about the correction resolver\<close>

lemma demo_rows: "iterate demo_store (JRef 4) = Some [JRef 0, JRef 1, JRef 2, JRef 3]"
  by (simp add: iterate_def lookup_def demo_store_def)

text \<open>
  Where every skipped index lies behind the patched ones the positions of the filtered
  array are the original ones: skipping the last of four rows and patching the second
  gives the first row, a copy of the second with distance 42, and the third.
\<close>

lemma demo_skip_last_patch_second:
  "corrected_rows demo_store (JRef 4) [skip_at 3, correct_at 1 (JRef 5)] =
     Some [JRef 0, JRef 9, JRef 2] \<and>
   own_props (corrected_store demo_store (JRef 4) [skip_at 3, correct_at 1 (JRef 5)]) (JRef 9)
     ''odometerStart'' = Some (JNum 150) \<and>
   own_props (corrected_store demo_store (JRef 4) [skip_at 3, correct_at 1 (JRef 5)]) (JRef 9)
     ''distance'' = Some (JNum 42)"
  by (simp add: corrected_rows_def corrected_store_def applyCorrections_def iterate_def lookup_def
      demo_store_def alloc_def partition_corrections_def note_correction_def skip_at_def
      correct_at_def correct_row_def own_props_def trip_def nth_append)

text \<open>
  Claim C1 (length conservation): for a pending dataset of length \<open>N\<close> the result has
  \<open>N\<close> minus the number of distinct in-range skip indices rows, and no row is removed
  but those a skip directive targets. The code does not do this. The \<^verbatim>\<open>map\<close> tests
  \<^verbatim>\<open>indicesToRemove.has(index)\<close> a second time, on the positions of the array that the
  first \<^verbatim>\<open>filter\<close> has already shortened: with four pending rows and the one
  directive \<^verbatim>\<open>{tripIndex: 0, action: 'skip'}\<close> the rows at addresses 1, 2 and 3 should
  remain, and the row at address 1, now at position 0, is dropped as well.
\<close>

theorem skip_first_row_drops_two:
  "corrected_rows demo_store (JRef 4) [skip_at 0] = Some [JRef 2, JRef 3]"
  by (simp add: corrected_rows_def applyCorrections_def iterate_def lookup_def demo_store_def
      alloc_def partition_corrections_def note_correction_def skip_at_def correct_row_def)

text \<open>
  Claim C2 (patch precedence at the original index): a \<^verbatim>\<open>'correct'\<close> directive for an
  in-range index \<open>i\<close> that is not skipped patches the row that was at position \<open>i\<close> of
  the pending dataset and no other row, whatever other rows are skipped. The code does
  not do this. With four pending rows, a skip of index 0 and the patch
  \<^verbatim>\<open>{distance: 42}\<close> for index 2, the row from position 2 (address 2, distance 30) is
  kept as it was, and the patch is merged into the row from position 3 (odometer start
  220), which sits at position 2 of the filtered array.
\<close>

theorem patch_lands_on_later_row:
  "corrected_rows demo_store (JRef 4) [skip_at 0, correct_at 2 (JRef 5)] = Some [JRef 2, JRef 9] \<and>
   own_props (corrected_store demo_store (JRef 4) [skip_at 0, correct_at 2 (JRef 5)]) (JRef 2)
     ''distance'' = Some (JNum 30) \<and>
   own_props (corrected_store demo_store (JRef 4) [skip_at 0, correct_at 2 (JRef 5)]) (JRef 9)
     ''odometerStart'' = Some (JNum 220) \<and>
   own_props (corrected_store demo_store (JRef 4) [skip_at 0, correct_at 2 (JRef 5)]) (JRef 9)
     ''distance'' = Some (JNum 42)"
  by (simp add: corrected_rows_def corrected_store_def applyCorrections_def iterate_def lookup_def
      demo_store_def alloc_def partition_corrections_def note_correction_def skip_at_def
      correct_at_def correct_row_def own_props_def trip_def nth_append)

text \<open>
  Claim C3 (skip wins over correct on a duplicate index): when the directives hold a
  skip for an in-range index \<open>i\<close>, the outcome of the call, result and store, is the one
  the call has with every \<^verbatim>\<open>'correct'\<close> directive for \<open>i\<close> taken out of the list, so no
  patch for \<open>i\<close> reaches any row; and the rows of the result stem, in order, from the
  pending rows other than the one at position \<open>i\<close>, each being such a row or a copy of
  it patched by one of the remaining directives.
\<close>

theorem skip_wins_over_correct:
  assumes it: "iterate h p = Some xs" and i: "i < length xs"
    and s: "s \<in> set cs" "action s = ''skip''" "tripIndex s = int i"
  shows "applyCorrections h p cs =
       applyCorrections h p (filter (\<lambda>c. \<not> (action c = ''correct'' \<and> tripIndex c = int i)) cs) \<and>
     (\<exists>a h' ys. applyCorrections h p cs = Inr (JRef a, h') \<and> iterate h' (JRef a) = Some ys \<and>
        list_emb
          (retained_as h h' (filter (\<lambda>c. \<not> (action c = ''correct'' \<and> tripIndex c = int i)) cs))
          ys (take i xs @ drop (Suc i) xs))"
proof -
  define keep where "keep = (\<lambda>c::directive. \<not> (action c = ''correct'' \<and> tripIndex c = int i))"
  define K where "K = UNIV - {int i}"
  have s': "s \<in> set (filter keep cs)" using s by (simp add: keep_def)
  have in_rm: "int i \<in> fst (partition_corrections ds)" if "s \<in> set ds" for ds
    unfolding partition_corrections_def fst_fold_note using that s(2,3) by force
  have "same_within K (fold note_correction cs ({}, Map.empty))
      (fold note_correction (filter keep cs) ({}, Map.empty))"
    by (rule same_within_fold_filter [OF _ same_within_refl]) (simp add: keep_def K_def)
  then have sw: "same_within K (partition_corrections cs) (partition_corrections (filter keep cs))"
    by (simp add: partition_corrections_def)
  have eq: "applyCorrections h p cs = applyCorrections h p (filter keep cs)"
  proof (rule applyCorrections_same_within [OF it sw])
    fix k assume "k < length xs"
    show "int k \<in> K \<or> int k \<in> fst (partition_corrections cs) \<and>
        int k \<in> fst (partition_corrections (filter keep cs))"
      using in_rm [OF s(1)] in_rm [OF s'] by (cases "k = i") (auto simp: K_def)
  qed
  obtain rm up where Q: "partition_corrections (filter keep cs) = (rm, up)"
    by (cases "partition_corrections (filter keep cs)")
  have rm: "int i \<in> rm" using in_rm [OF s'] Q by simp
  from applyCorrections_provenance [OF it Q] obtain a ext ys where
    r: "applyCorrections h p (filter keep cs) = Inr (JRef a, h @ ext)"
      "iterate (h @ ext) (JRef a) = Some ys"
      "list_emb (retained_as h (h @ ext) (filter keep cs)) ys
         (array_filter (\<lambda>item index. int index \<notin> rm) 0 xs)"
    by blast
  have "subseq (array_filter (\<lambda>item index. int index \<notin> rm) 0 xs) (take i xs @ drop (Suc i) xs)"
    by (rule subseq_array_filter_drops [OF i]) (simp add: rm)
  then have "list_emb (retained_as h (h @ ext) (filter keep cs)) ys (take i xs @ drop (Suc i) xs)"
    using r(3) by (rule list_emb_subseq)
  with eq r(1,2) show ?thesis unfolding keep_def by auto
qed

theorem skip_wins_over_correct_witness:
  "iterate demo_store (JRef 4) = Some [JRef 0, JRef 1, JRef 2, JRef 3] \<and>
   (1::nat) < length [JRef 0, JRef 1, JRef 2, JRef 3] \<and>
   skip_at 1 \<in> set [correct_at 1 (JRef 5), skip_at 1] \<and>
   action (skip_at 1) = ''skip'' \<and> tripIndex (skip_at 1) = int 1 \<and>
   applyCorrections demo_store (JRef 4) [correct_at 1 (JRef 5), skip_at 1] =
     applyCorrections demo_store (JRef 4)
       (filter (\<lambda>c. \<not> (action c = ''correct'' \<and> tripIndex c = int 1))
          [correct_at 1 (JRef 5), skip_at 1]) \<and>
   (\<exists>a h' ys.
      applyCorrections demo_store (JRef 4) [correct_at 1 (JRef 5), skip_at 1] = Inr (JRef a, h') \<and>
      iterate h' (JRef a) = Some ys \<and>
      list_emb
        (retained_as demo_store h'
           (filter (\<lambda>c. \<not> (action c = ''correct'' \<and> tripIndex c = int 1))
              [correct_at 1 (JRef 5), skip_at 1]))
        ys (take 1 [JRef 0, JRef 1, JRef 2, JRef 3] @ drop (Suc 1) [JRef 0, JRef 1, JRef 2, JRef 3]))"
proof -
  have len: "(1::nat) < length [JRef 0, JRef 1, JRef 2, JRef 3]" by simp
  have mem: "skip_at 1 \<in> set [correct_at 1 (JRef 5), skip_at 1]" by simp
  have act: "action (skip_at 1) = ''skip''" by (simp add: skip_at_def)
  have idx: "tripIndex (skip_at 1) = int 1" by (simp add: skip_at_def)
  note concl = skip_wins_over_correct [OF demo_rows len mem act idx]
  show ?thesis
    by (intro conjI demo_rows len mem act idx concl [THEN conjunct1] concl [THEN conjunct2])
qed

text \<open>
  Claim C4 (order preservation): the call returns an array whose rows stem from rows of
  the pending dataset at increasing positions: the result embeds into the pending
  dataset in order, each row being the pending row itself or a patched copy of it. The
  result has no gaps: none of its entries is \<^verbatim>\<open>null\<close> or otherwise falsy.
\<close>

theorem order_preserved:
  assumes "iterate h p = Some xs"
  shows "\<exists>a h' ys. applyCorrections h p cs = Inr (JRef a, h') \<and> iterate h' (JRef a) = Some ys \<and>
     list_emb (retained_as h h' cs) ys xs \<and> (\<forall>y\<in>set ys. truthy y)"
proof -
  obtain rm up where P: "partition_corrections cs = (rm, up)" by (cases "partition_corrections cs")
  from applyCorrections_provenance [OF assms P] obtain a ext ys where
    r: "applyCorrections h p cs = Inr (JRef a, h @ ext)" "iterate (h @ ext) (JRef a) = Some ys"
      "list_emb (retained_as h (h @ ext) cs) ys (array_filter (\<lambda>item index. int index \<notin> rm) 0 xs)"
      "\<forall>y\<in>set ys. truthy y"
    by blast
  have "list_emb (retained_as h (h @ ext) cs) ys xs"
    using subseq_array_filter r(3) by (rule list_emb_subseq)
  with r show ?thesis by blast
qed

theorem order_preserved_witness:
  "iterate demo_store (JRef 4) = Some [JRef 0, JRef 1, JRef 2, JRef 3] \<and>
   (\<exists>a h' ys.
      applyCorrections demo_store (JRef 4) [skip_at 3, correct_at 1 (JRef 5)] = Inr (JRef a, h') \<and>
      iterate h' (JRef a) = Some ys \<and>
      list_emb (retained_as demo_store h' [skip_at 3, correct_at 1 (JRef 5)]) ys
        [JRef 0, JRef 1, JRef 2, JRef 3] \<and>
      (\<forall>y\<in>set ys. truthy y))"
  by (rule conjI [OF demo_rows order_preserved [OF demo_rows]])

text \<open>
  Claim C5 (out-of-range directive no-op): a directive whose \<^verbatim>\<open>tripIndex\<close> is negative or
  at least the length of the pending dataset has no effect, whatever its action: the call
  returns what it returns for the list without that directive.
\<close>

theorem out_of_range_directive_noop:
  assumes "iterate h p = Some xs" and "tripIndex d < 0 \<or> int (length xs) \<le> tripIndex d"
  shows "applyCorrections h p (cs1 @ d # cs2) = applyCorrections h p (cs1 @ cs2)"
proof -
  define K where "K = {k. 0 \<le> k \<and> k < int (length xs)}"
  define P where "P = fold note_correction cs1 ({}, Map.empty)"
  have d: "tripIndex d \<notin> K" using assms(2) by (auto simp: K_def)
  have "same_within K (note_correction d P) P"
    using d same_within_refl by (rule same_within_drop)
  then have "same_within K (fold note_correction cs2 (note_correction d P))
      (fold note_correction (filter (\<lambda>c. True) cs2) P)"
    by (rule same_within_fold_filter [rotated]) simp
  then have "same_within K (partition_corrections (cs1 @ d # cs2))
      (partition_corrections (cs1 @ cs2))"
    by (simp add: partition_corrections_def P_def)
  then show ?thesis
    by (rule applyCorrections_same_within [OF assms(1)]) (simp add: K_def)
qed

theorem out_of_range_directive_noop_witness:
  "iterate demo_store (JRef 4) = Some [JRef 0, JRef 1, JRef 2, JRef 3] \<and>
   (tripIndex (skip_at 7) < 0 \<or>
    int (length [JRef 0, JRef 1, JRef 2, JRef 3]) \<le> tripIndex (skip_at 7)) \<and>
   applyCorrections demo_store (JRef 4) ([correct_at 1 (JRef 5)] @ skip_at 7 # [skip_at 3]) =
     applyCorrections demo_store (JRef 4) ([correct_at 1 (JRef 5)] @ [skip_at 3])"
proof -
  have rng: "tripIndex (skip_at 7) < 0 \<or>
      int (length [JRef 0, JRef 1, JRef 2, JRef 3]) \<le> tripIndex (skip_at 7)"
    by (simp add: skip_at_def)
  show ?thesis
    by (intro conjI demo_rows rng out_of_range_directive_noop [OF demo_rows rng])
qed

section \<open>The claims about the session state\<close>

text \<open>
  Claim C6 (successful resolution): in a state that awaits correction, with the pending
  dataset an array of the store and a non-empty anomaly list, the handler returns, the
  accepted dataset is the array the resolver returned, the pending dataset is
  \<^verbatim>\<open>null\<close>, the anomaly list is empty, the modal is closed, and the session is in
  \<open>CLEAN_LOADED\<close>.
\<close>

theorem resolve_transition:
  assumes "session_phase st = AWAITING_CORRECTION"
    and "iterate h (pendingJourneyData st) = Some xs" and "anomalies st \<noteq> []"
  shows "\<exists>finalData h'. applyCorrections h (pendingJourneyData st) cs = Inr (finalData, h') \<and>
     handleAnomalyCorrection st h cs =
       (Returned,
        st\<lparr>journeyData := finalData, pendingJourneyData := JNull, anomalies := [],
           anomalyModalOpened := False\<rparr>, h') \<and>
     session_phase (fst (snd (handleAnomalyCorrection st h cs))) = CLEAN_LOADED"
proof -
  obtain rm up where P: "partition_corrections cs = (rm, up)" by (cases "partition_corrections cs")
  from applyCorrections_provenance [OF assms(2) P] obtain a ext where
    "applyCorrections h (pendingJourneyData st) cs = Inr (JRef a, h @ ext)" by blast
  then show ?thesis
    by (simp add: handleAnomalyCorrection_def closeAnomalyModal_def session_phase_def)
qed

theorem resolve_transition_witness:
  "session_phase awaiting_state = AWAITING_CORRECTION \<and>
   iterate demo_store (pendingJourneyData awaiting_state) = Some [JRef 0, JRef 1, JRef 2, JRef 3] \<and>
   anomalies awaiting_state \<noteq> [] \<and>
   (\<exists>finalData h'.
      applyCorrections demo_store (pendingJourneyData awaiting_state) [skip_at 3] =
        Inr (finalData, h') \<and>
      handleAnomalyCorrection awaiting_state demo_store [skip_at 3] =
        (Returned,
         awaiting_state\<lparr>journeyData := finalData, pendingJourneyData := JNull, anomalies := [],
           anomalyModalOpened := False\<rparr>, h') \<and>
      session_phase (fst (snd (handleAnomalyCorrection awaiting_state demo_store [skip_at 3]))) =
        CLEAN_LOADED)"
proof -
  have ph: "session_phase awaiting_state = AWAITING_CORRECTION"
    by (simp add: session_phase_def awaiting_state_def)
  have it: "iterate demo_store (pendingJourneyData awaiting_state) =
      Some [JRef 0, JRef 1, JRef 2, JRef 3]"
    using demo_rows by (simp add: awaiting_state_def)
  have an: "anomalies awaiting_state \<noteq> []" by (simp add: awaiting_state_def)
  show ?thesis by (intro conjI ph it an resolve_transition [OF ph it an])
qed

text \<open>
  Claim C7 (cancel transition), as the code has it: closing the correction workflow
  without resolving runs \<^verbatim>\<open>closeAnomalyModal\<close> and nothing else. It closes the modal and
  leaves the accepted dataset, the pending dataset and the anomaly list at their
  previous values, so the session stays in the state it was in.
\<close>

theorem close_keeps_session:
  "journeyData (closeAnomalyModal st) = journeyData st \<and>
   pendingJourneyData (closeAnomalyModal st) = pendingJourneyData st \<and>
   anomalies (closeAnomalyModal st) = anomalies st \<and>
   \<not> anomalyModalOpened (closeAnomalyModal st) \<and>
   session_phase (closeAnomalyModal st) = session_phase st"
  by (simp add: closeAnomalyModal_def session_phase_def)

theorem close_keeps_session_witness:
  "journeyData (closeAnomalyModal awaiting_state) = journeyData awaiting_state \<and>
   pendingJourneyData (closeAnomalyModal awaiting_state) = pendingJourneyData awaiting_state \<and>
   anomalies (closeAnomalyModal awaiting_state) = anomalies awaiting_state \<and>
   \<not> anomalyModalOpened (closeAnomalyModal awaiting_state) \<and>
   session_phase (closeAnomalyModal awaiting_state) = session_phase awaiting_state"
  by (rule close_keeps_session [of awaiting_state])

text \<open>
  Claim C7 as the specification states it, that the pending dataset and the anomaly list
  are discarded and the session leaves \<open>AWAITING_CORRECTION\<close>, fails in the state with
  the demo dataset pending.
\<close>

theorem cancel_discards_counterexample:
  "session_phase awaiting_state = AWAITING_CORRECTION \<and>
   pendingJourneyData (closeAnomalyModal awaiting_state) = JRef 4 \<and>
   anomalies (closeAnomalyModal awaiting_state) = [JRef 6] \<and>
   session_phase (closeAnomalyModal awaiting_state) = AWAITING_CORRECTION"
  by (simp add: closeAnomalyModal_def session_phase_def awaiting_state_def)

text \<open>
  Claim C8 (resolve outside \<open>AWAITING_CORRECTION\<close>): with no pending dataset the handler
  throws a \<^verbatim>\<open>TypeError\<close> to its caller at the spread of \<^verbatim>\<open>null\<close>, before any setter
  runs: the accepted dataset, the pending dataset, the anomaly list and the store are
  what they were.
\<close>

theorem resolve_without_pending:
  assumes "session_phase st \<noteq> AWAITING_CORRECTION"
  shows "handleAnomalyCorrection st h cs = (Threw TypeError, st, h)"
proof -
  from assms have "pendingJourneyData st = JNull"
    by (simp add: session_phase_def split: if_splits)
  then show ?thesis
    by (simp add: handleAnomalyCorrection_def applyCorrections_def iterate_def)
qed

theorem resolve_without_pending_witness:
  "session_phase initial_state \<noteq> AWAITING_CORRECTION \<and>
   handleAnomalyCorrection initial_state demo_store [skip_at 0] =
     (Threw TypeError, initial_state, demo_store)"
proof -
  have ph: "session_phase initial_state \<noteq> AWAITING_CORRECTION"
    by (simp add: session_phase_def initial_state_def)
  show ?thesis by (intro conjI ph resolve_without_pending [OF ph])
qed

section \<open>The implicit claims\<close>

text \<open>
  Claim C9 (the empty directive list keeps the truthy rows): with no directives the
  result holds, in order, the entries of the pending dataset that are truthy; it is the
  pending dataset itself when every row is an object, and a \<^verbatim>\<open>null\<close>, \<^verbatim>\<open>undefined\<close> or
  otherwise falsy entry is dropped though no directive targets it.
\<close>

theorem empty_directives_keep_truthy_rows:
  assumes "iterate h p = Some xs"
  shows "corrected_rows h p [] = Some (filter truthy xs) \<and>
     ((\<forall>x\<in>set xs. \<exists>a. x = JRef a) \<longrightarrow> corrected_rows h p [] = Some xs)"
proof -
  have rows: "corrected_rows h p [] = Some (filter truthy xs)"
    using applyCorrections_Nil [OF assms]
    by (simp add: corrected_rows_def iterate_def lookup_def nth_append)
  moreover have "filter truthy xs = xs" if "\<forall>x\<in>set xs. \<exists>a. x = JRef a"
    using that by (induction xs) auto
  ultimately show ?thesis by simp
qed

theorem empty_directives_keep_truthy_rows_witness:
  "iterate demo_store (JRef 4) = Some [JRef 0, JRef 1, JRef 2, JRef 3] \<and>
   corrected_rows demo_store (JRef 4) [] = Some (filter truthy [JRef 0, JRef 1, JRef 2, JRef 3]) \<and>
   corrected_rows demo_store (JRef 4) [] = Some [JRef 0, JRef 1, JRef 2, JRef 3]"
proof -
  have refs: "\<forall>x\<in>set [JRef 0, JRef 1, JRef 2, JRef 3]. \<exists>a. x = JRef a" by simp
  note concl = empty_directives_keep_truthy_rows [OF demo_rows]
  show ?thesis
    by (intro conjI demo_rows concl [THEN conjunct1] concl [THEN conjunct2, THEN mp, OF refs])
qed

text \<open>
  Claim C10 (the resolver does not mutate its input): the call returns, every cell of
  the store it was given is unchanged in the store it leaves, so the pending dataset
  still holds the same rows and every row object its properties; the result is an array
  at an address that was free before; and each row of the result is a row of the pending
  dataset, by reference, or an object at a fresh address that merges such a row with a
  patch.
\<close>

theorem input_not_mutated:
  assumes "iterate h p = Some xs"
  shows "\<exists>a h' ys. applyCorrections h p cs = Inr (JRef a, h') \<and>
     (\<forall>b<length h. lookup h' b = lookup h b) \<and> iterate h' p = Some xs \<and>
     lookup h a = None \<and> iterate h' (JRef a) = Some ys \<and>
     (\<forall>y\<in>set ys. y \<in> set xs \<or> (\<exists>x\<in>set xs. patched_copy h h' (patches cs) y x))"
proof -
  obtain rm up where P: "partition_corrections cs = (rm, up)" by (cases "partition_corrections cs")
  from applyCorrections_provenance [OF assms P] obtain a ext ys where
    r: "applyCorrections h p cs = Inr (JRef a, h @ ext)" "length h \<le> a"
      "iterate (h @ ext) (JRef a) = Some ys"
      "list_emb (retained_as h (h @ ext) cs) ys (array_filter (\<lambda>item index. int index \<notin> rm) 0 xs)"
    by blast
  have emb: "list_emb (retained_as h (h @ ext) cs) ys xs"
    using subseq_array_filter r(4) by (rule list_emb_subseq)
  have rows: "\<forall>y\<in>set ys. y \<in> set xs \<or> (\<exists>x\<in>set xs. patched_copy h (h @ ext) (patches cs) y x)"
  proof
    fix y assume "y \<in> set ys"
    with emb obtain x where "x \<in> set xs" "retained_as h (h @ ext) cs y x"
      by (blast dest: list_emb_set)
    then show "y \<in> set xs \<or> (\<exists>x\<in>set xs. patched_copy h (h @ ext) (patches cs) y x)"
      by (auto simp: retained_as_def)
  qed
  have old: "\<forall>b<length h. lookup (h @ ext) b = lookup h b"
    by (simp add: lookup_append_old)
  have fresh: "lookup h a = None" using r(2) by (simp add: lookup_def)
  from r(1,3) old iterate_append [OF assms] fresh rows show ?thesis by blast
qed

theorem input_not_mutated_witness:
  "iterate demo_store (JRef 4) = Some [JRef 0, JRef 1, JRef 2, JRef 3] \<and>
   (\<exists>a h' ys.
      applyCorrections demo_store (JRef 4) [correct_at 0 (JRef 5)] = Inr (JRef a, h') \<and>
      (\<forall>b<length demo_store. lookup h' b = lookup demo_store b) \<and>
      iterate h' (JRef 4) = Some [JRef 0, JRef 1, JRef 2, JRef 3] \<and>
      lookup demo_store a = None \<and> iterate h' (JRef a) = Some ys \<and>
      (\<forall>y\<in>set ys. y \<in> set [JRef 0, JRef 1, JRef 2, JRef 3] \<or>
         (\<exists>x\<in>set [JRef 0, JRef 1, JRef 2, JRef 3].
            patched_copy demo_store h' (patches [correct_at 0 (JRef 5)]) y x)))"
  by (rule conjI [OF demo_rows input_not_mutated [OF demo_rows]])

end
